theory Spec2Isabelle
  imports
    Main
    "HOL-Library.Char_ord"
    "HOL-Library.List_Lexorder"
    "HOL-Library.AList"
    "HOL-Library.Multiset"
    "HOL-Library.Finite_Map"
begin

section \<open>Data model\<close>

text \<open>
  The verifier works on the task records of one workflow as the orchestration service's
  API returns them: Python dictionaries of which the code reads two keys,
  \<^verbatim>\<open>'task_id'\<close> and \<^verbatim>\<open>'downstream_task_ids'\<close>. Either key may be
  absent from a dictionary, so both fields are optional in the model: \<open>None\<close> is
  "the key is not in the dictionary". Other keys of a record are neither read nor
  written by the code and are left out.

  Strings are \<^typ>\<open>string\<close>, compared as Python compares \<^verbatim>\<open>str\<close>: character by
  character, a proper prefix being smaller (the lexicographic order on lists over the
  order of character codes). A \<^typ>\<open>char\<close> is a byte: an identifier outside ASCII
  stands here as its UTF-8 bytes, whose order is the order of the code points.
\<close>

record task =
  task_id :: "string option"
  downstream_task_ids :: "string list option"

text \<open>
  The exceptions the three core functions can raise on dictionaries with values of the
  right types: the \<^verbatim>\<open>KeyError\<close> of a subscript on a missing key, and what the
  builtin \<^verbatim>\<open>print\<close> raises when the text cannot be written to standard output
  (\<^verbatim>\<open>UnicodeEncodeError\<close> where the stream's encoding has no code for a character,
  \<^verbatim>\<open>OSError\<close> or \<^verbatim>\<open>ValueError\<close> where the stream is broken or closed).
\<close>

datatype py_error = KeyError | UnicodeEncodeError | OSError | ValueError

text \<open>\<^verbatim>\<open>task.get('downstream_task_ids', [])\<close>\<close>

definition get_downstream_task_ids :: "task \<Rightarrow> string list" where
  "get_downstream_task_ids task =
     (case downstream_task_ids task of None \<Rightarrow> [] | Some ds \<Rightarrow> ds)"

section \<open>\<^verbatim>\<open>normalize_tasks\<close>\<close>

text \<open>
  \<^verbatim>\<open>
  def normalize_tasks(tasks):
      for task in tasks:
          task['downstream_task_ids'] = sorted(task.get('downstream_task_ids', []))
      return sorted(tasks, key=lambda x: x['task_id'])
  \<close>
  The loop assigns into every dictionary of the argument: the function changes its
  argument in place. The model passes that state explicitly: \<open>normalize_tasks\<close> returns
  the pair of the argument list as it is after the call and of the returned
  value. The assignment depends on the assigned dictionary alone and repeating it changes
  nothing, so a dictionary that occurs twice in the list ends in the same state as each of
  its occurrences does here.

  \<^verbatim>\<open>sorted\<close> builds a new list and leaves \<^verbatim>\<open>tasks\<close> in its order; it is a
  stable sort, as \<^const>\<open>sort_key\<close> is. It computes the key of every element before it
  compares any, so a dictionary without \<^verbatim>\<open>'task_id'\<close> raises
  \<^verbatim>\<open>KeyError\<close>, after the loop has run.
\<close>

definition set_sorted_downstream :: "task \<Rightarrow> task" where
  "set_sorted_downstream task =
     task\<lparr>downstream_task_ids := Some (sort (get_downstream_task_ids task))\<rparr>"

definition sorted_by_task_id :: "task list \<Rightarrow> py_error + task list" where
  "sorted_by_task_id tasks =
     (if list_all (\<lambda>x. task_id x \<noteq> None) tasks
      then Inr (sort_key (\<lambda>x. the (task_id x)) tasks)
      else Inl KeyError)"

definition normalize_tasks :: "task list \<Rightarrow> task list \<times> (py_error + task list)" where
  "normalize_tasks tasks =
     (let tasks' = map set_sorted_downstream tasks
      in (tasks', sorted_by_task_id tasks'))"

text \<open>The value \<^verbatim>\<open>normalize_tasks(tasks)\<close> returns (or the exception it raises).\<close>

definition normalize_tasks_result :: "task list \<Rightarrow> py_error + task list" where
  "normalize_tasks_result tasks = snd (normalize_tasks tasks)"

section \<open>\<^verbatim>\<open>create_dependency_graph\<close>\<close>

text \<open>
  \<^verbatim>\<open>
  def create_dependency_graph(tasks):
      graph = {}
      for task in tasks:
          graph[task['task_id']] = task.get('downstream_task_ids', [])
      dependency_graph = []
      for task_id, downstream_tasks in graph.items():
          if downstream_tasks:
              dependency_graph.append(f"{task_id} >> {' >> '.join(downstream_tasks)}")
          else:
              dependency_graph.append(f"{task_id} (no downstream tasks)")
      return dependency_graph
  \<close>
  A Python dictionary iterates in the order in which its keys were first inserted, and
  an assignment to a key it already has replaces the value where the key stands. That is
  an association list under \<^const>\<open>AList.update\<close>.
\<close>

fun join :: "string \<Rightarrow> string list \<Rightarrow> string" where
  "join sep [] = []"
| "join sep [x] = x"
| "join sep (x # y # ys) = x @ sep @ join sep (y # ys)"

fun build_graph ::
  "(string \<times> string list) list \<Rightarrow> task list \<Rightarrow> py_error + (string \<times> string list) list"
where
  "build_graph graph [] = Inr graph"
| "build_graph graph (task # tasks) =
     (case task_id task of
        None \<Rightarrow> Inl KeyError
      | Some tid \<Rightarrow> build_graph (AList.update tid (get_downstream_task_ids task) graph) tasks)"

definition graph_line :: "string \<times> string list \<Rightarrow> string" where
  "graph_line item =
     (case item of (tid, downstream_tasks) \<Rightarrow>
        if downstream_tasks \<noteq> []
        then tid @ '' >> '' @ join '' >> '' downstream_tasks
        else tid @ '' (no downstream tasks)'')"

definition create_dependency_graph :: "task list \<Rightarrow> py_error + string list" where
  "create_dependency_graph tasks =
     (case build_graph [] tasks of
        Inl e \<Rightarrow> Inl e
      | Inr graph \<Rightarrow> Inr (map graph_line graph))"

section \<open>\<^verbatim>\<open>compare_dag_graphs\<close>\<close>

text \<open>
  \<^verbatim>\<open>
  def compare_dag_graphs(graphs1, graphs2):
      report = {'unique_to_env1': [], 'unique_to_env2': [], 'different_graphs': []}
      dags1 = set(graphs1.keys())
      dags2 = set(graphs2.keys())
      unique_to_env1 = dags1 - dags2
      unique_to_env2 = dags2 - dags1
      common_dags = dags1 & dags2
      for dag in unique_to_env1:
          report['unique_to_env1'].append(dag)
      for dag in unique_to_env2:
          report['unique_to_env2'].append(dag)
      for dag in common_dags:
          if graphs1[dag] != graphs2[dag]:
              print(f"Differences found in DAG {dag}:")
              print("Env1 graph:", graphs1[dag])
              print("Env2 graph:", graphs2[dag])
              report['different_graphs'].append(dag)
      return report
  \<close>
  A graph collection is a dictionary from workflow identifiers to rendered graphs: a
  finite map. The report holds three lists, filled while iterating over Python sets.
  Python does not fix the order in which a set is iterated, so the model takes it as
  a parameter \<open>iter\<close>: the list of a finite set's elements in the order the loop meets
  them. \<open>set_iteration\<close> says what every iteration of a set does: it meets each
  element once and nothing else. The subscripts \<^verbatim>\<open>graphs1[dag]\<close> and
  \<^verbatim>\<open>graphs2[dag]\<close> raise \<^verbatim>\<open>KeyError\<close> on a missing key.

  The three \<^verbatim>\<open>print\<close> calls write to standard output and never touch the
  report. \<open>compare_common\<close> and \<open>compare_dag_graphs\<close> are the computation of the
  report, without them; \<open>compare_common_printing\<close> and \<open>compare_dag_graphs_printing\<close>
  below are the function with its output, where a \<^verbatim>\<open>print\<close> can raise.
\<close>

type_synonym graphs = "(string, string list) fmap"

record report =
  unique_to_env1 :: "string list"
  unique_to_env2 :: "string list"
  different_graphs :: "string list"

definition set_iteration :: "('a fset \<Rightarrow> 'a list) \<Rightarrow> bool" where
  "set_iteration iter = (\<forall>S. fset_of_list (iter S) = S \<and> distinct (iter S))"

fun compare_common :: "graphs \<Rightarrow> graphs \<Rightarrow> string list \<Rightarrow> report \<Rightarrow> py_error + report" where
  "compare_common graphs1 graphs2 [] report = Inr report"
| "compare_common graphs1 graphs2 (dag # dags) report =
     (case fmlookup graphs1 dag of
        None \<Rightarrow> Inl KeyError
      | Some graph1 \<Rightarrow>
          (case fmlookup graphs2 dag of
             None \<Rightarrow> Inl KeyError
           | Some graph2 \<Rightarrow>
               compare_common graphs1 graphs2 dags
                 (if graph1 \<noteq> graph2
                  then report\<lparr>different_graphs := different_graphs report @ [dag]\<rparr>
                  else report)))"

definition compare_dag_graphs ::
  "(string fset \<Rightarrow> string list) \<Rightarrow> graphs \<Rightarrow> graphs \<Rightarrow> py_error + report"
where
  "compare_dag_graphs iter graphs1 graphs2 =
     (let report = \<lparr>unique_to_env1 = [], unique_to_env2 = [], different_graphs = []\<rparr>;
          dags1 = fmdom graphs1;
          dags2 = fmdom graphs2;
          only_env1 = dags1 |-| dags2;
          only_env2 = dags2 |-| dags1;
          common_dags = dags1 |\<inter>| dags2;
          report = fold (\<lambda>dag r. r\<lparr>unique_to_env1 := unique_to_env1 r @ [dag]\<rparr>)
                     (iter only_env1) report;
          report = fold (\<lambda>dag r. r\<lparr>unique_to_env2 := unique_to_env2 r @ [dag]\<rparr>)
                     (iter only_env2) report
      in compare_common graphs1 graphs2 (iter common_dags) report)"

subsection \<open>With the output\<close>








section \<open>Normalizing, then rendering\<close>

text \<open>
  \<^verbatim>\<open>generate_dependency_graphs\<close> renders what the normalizer returns:
  \<^verbatim>\<open>
  tasks = normalize_tasks(tasks)
  dependency_graph = create_dependency_graph(tasks)
  \<close>
  An exception of the first call leaves the second one out.
\<close>

definition render_normalized :: "task list \<Rightarrow> py_error + string list" where
  "render_normalized tasks =
     (case normalize_tasks_result tasks of
        Inl e \<Rightarrow> Inl e
      | Inr tasks' \<Rightarrow> create_dependency_graph tasks')"

section \<open>The specification's notions\<close>

text \<open>
  Well-formed input of the normalizer and of the renderer: every task record has its
  string identifier. (That the downstream field, when present, is a list of strings is
  the type of the field.)
\<close>

definition well_formed :: "task list \<Rightarrow> bool" where
  "well_formed tasks = list_all (\<lambda>task. task_id task \<noteq> None) tasks"

text \<open>
  A Normalized Task Sequence, as the specification's data model words it: tasks with
  identifiers, sorted by identifier ascending, each with a downstream list that is sorted
  ascending.
\<close>

definition normalized_task_sequence :: "task list \<Rightarrow> bool" where
  "normalized_task_sequence tasks =
     (list_all (\<lambda>task. task_id task \<noteq> None \<and>
         (case downstream_task_ids task of None \<Rightarrow> False | Some ds \<Rightarrow> sorted ds)) tasks \<and>
      sorted (map (\<lambda>task. the (task_id task)) tasks))"

text \<open>
  The normal form of one task record: the same identifier, the downstream identifiers in
  ascending order, none for an absent field.
\<close>

definition normal_form :: "task \<Rightarrow> task" where
  "normal_form task =
     \<lparr>task_id = task_id task,
      downstream_task_ids =
        Some (sort (case downstream_task_ids task of None \<Rightarrow> [] | Some ds \<Rightarrow> ds))\<rparr>"

text \<open>
  A line of a Rendered Graph, as the specification words it: the fixed sentinel after the
  identifier of a task without downstream identifiers; otherwise the identifier followed
  by each downstream identifier, in sorted order, behind the separator.
\<close>

definition rendered_line :: "string \<Rightarrow> string list \<Rightarrow> string" where
  "rendered_line tid ds =
     (if ds = [] then tid @ '' (no downstream tasks)''
      else concat (tid # map (\<lambda>d. '' >> '' @ d) (sort ds)))"

text \<open>
  The fourth category of the diff, which the report does not record: a workflow of both
  collections whose rendered graphs are equal.
\<close>

definition implicit_match :: "graphs \<Rightarrow> graphs \<Rightarrow> string \<Rightarrow> bool" where
  "implicit_match left right dag =
     (dag |\<in>| fmdom left \<and> dag |\<in>| fmdom right \<and> fmlookup left dag = fmlookup right dag)"

section \<open>The normalizer\<close>

subsection \<open>The order of identifiers\<close>

lemma string_order_lexicographic:
  fixes xs ys :: string
  shows "[] \<le> ys" and "\<not> x # xs \<le> []"
    and "(x # xs \<le> y # ys) = (x < y \<or> x = y \<and> xs \<le> ys)"
    and "(x < y) = ((of_char x :: nat) < of_char y)"
  by (simp_all add: less_char_def)

subsection \<open>What it returns\<close>

lemma task_id_set_sorted_downstream: "task_id (set_sorted_downstream t) = task_id t"
  by (simp add: set_sorted_downstream_def)

lemma set_sorted_downstream_normal_form: "set_sorted_downstream = normal_form"
  by (rule ext) (simp add: set_sorted_downstream_def normal_form_def get_downstream_task_ids_def)

lemma sorted_by_task_id_well_formed:
  "well_formed tasks \<Longrightarrow> sorted_by_task_id tasks = Inr (sort_key (\<lambda>x. the (task_id x)) tasks)"
  by (simp add: well_formed_def sorted_by_task_id_def)

lemma well_formed_map_set_sorted_downstream:
  "well_formed (map set_sorted_downstream tasks) = well_formed tasks"
  by (simp add: well_formed_def list_all_iff task_id_set_sorted_downstream)

lemma normalize_tasks_result_well_formed:
  "well_formed tasks \<Longrightarrow>
   normalize_tasks_result tasks =
     Inr (sort_key (\<lambda>x. the (task_id x)) (map set_sorted_downstream tasks))"
  by (simp add: normalize_tasks_result_def normalize_tasks_def Let_def
      sorted_by_task_id_well_formed well_formed_map_set_sorted_downstream)

lemma normalize_tasks_result_ill_formed:
  "\<not> well_formed tasks \<Longrightarrow> normalize_tasks_result tasks = Inl KeyError"
  using well_formed_map_set_sorted_downstream [of tasks]
  by (simp add: normalize_tasks_result_def normalize_tasks_def Let_def
      sorted_by_task_id_def well_formed_def)

lemma normalized_sort_key:
  assumes "well_formed tasks"
  shows "normalized_task_sequence
           (sort_key (\<lambda>x. the (task_id x)) (map set_sorted_downstream tasks))"
  using assms
  by (auto simp: normalized_task_sequence_def well_formed_def list_all_iff
      set_sorted_downstream_def)

text \<open>
  C2: for every collection of tasks that all have their identifier, the normalizer
  returns a Normalized Task Sequence (sorted by identifier in the lexicographic order of
  strings, every downstream list present and sorted) that holds exactly the normal forms
  of the given tasks, each as often as given; the normal form of a task without downstream
  list has the empty one.
\<close>

theorem normalize_tasks_sorts:
  assumes "well_formed tasks"
  shows "\<exists>result. normalize_tasks_result tasks = Inr result \<and>
           normalized_task_sequence result \<and>
           mset result = mset (map normal_form tasks)"
proof -
  have "mset (sort_key (\<lambda>x. the (task_id x)) (map set_sorted_downstream tasks)) =
        mset (map normal_form tasks)"
    by (simp add: set_sorted_downstream_normal_form)
  then show ?thesis
    using normalize_tasks_result_well_formed [OF assms] normalized_sort_key [OF assms]
    by simp
qed

theorem normalize_tasks_sorts_witness:
  "well_formed
     [\<lparr>task_id = Some ''load'', downstream_task_ids = None\<rparr>,
      \<lparr>task_id = Some ''extract'', downstream_task_ids = Some [''transform'', ''audit'']\<rparr>] \<and>
   normalize_tasks_result
     [\<lparr>task_id = Some ''load'', downstream_task_ids = None\<rparr>,
      \<lparr>task_id = Some ''extract'', downstream_task_ids = Some [''transform'', ''audit'']\<rparr>] =
   Inr [\<lparr>task_id = Some ''extract'', downstream_task_ids = Some [''audit'', ''transform'']\<rparr>,
        \<lparr>task_id = Some ''load'', downstream_task_ids = Some []\<rparr>] \<and>
   normalized_task_sequence
     [\<lparr>task_id = Some ''extract'', downstream_task_ids = Some [''audit'', ''transform'']\<rparr>,
      \<lparr>task_id = Some ''load'', downstream_task_ids = Some []\<rparr>]"
proof -
  let ?tasks = "[\<lparr>task_id = Some ''load'', downstream_task_ids = None\<rparr>,
      \<lparr>task_id = Some ''extract'', downstream_task_ids = Some [''transform'', ''audit'']\<rparr>]"
  have wf: "well_formed ?tasks"
    by (simp add: well_formed_def)
  have run: "normalize_tasks_result ?tasks =
    Inr [\<lparr>task_id = Some ''extract'', downstream_task_ids = Some [''audit'', ''transform'']\<rparr>,
         \<lparr>task_id = Some ''load'', downstream_task_ids = Some []\<rparr>]"
    by (simp add: normalize_tasks_result_def normalize_tasks_def sorted_by_task_id_def
        set_sorted_downstream_def get_downstream_task_ids_def Let_def)
  from normalize_tasks_sorts [OF wf] wf run show ?thesis
    by auto
qed

subsection \<open>What it does to its argument\<close>

text \<open>
  C5, as stated, fails: the task record of the argument holds the sorted downstream list
  after the call, not the list it held before.
\<close>

theorem normalize_tasks_mutates_counterexample:
  "fst (normalize_tasks [\<lparr>task_id = Some ''a'', downstream_task_ids = Some [''c'', ''b'']\<rparr>]) \<noteq>
   [\<lparr>task_id = Some ''a'', downstream_task_ids = Some [''c'', ''b'']\<rparr>]"
  by (simp add: normalize_tasks_def set_sorted_downstream_def get_downstream_task_ids_def
      Let_def)

text \<open>
  C5, amended: normalization rewrites the downstream list of every task record of its
  argument, to the sorted list (the empty list where the record had none), and nothing
  else: the argument keeps its length and order and every record its identifier; an
  argument whose records all hold a sorted downstream list is unchanged.
\<close>

theorem normalize_tasks_frame:
  "map task_id (fst (normalize_tasks tasks)) = map task_id tasks \<and>
   map downstream_task_ids (fst (normalize_tasks tasks)) =
     map (\<lambda>task. Some (sort (get_downstream_task_ids task))) tasks \<and>
   (list_all (\<lambda>task. case downstream_task_ids task of None \<Rightarrow> False | Some ds \<Rightarrow> sorted ds)
      tasks \<longrightarrow> fst (normalize_tasks tasks) = tasks)"
proof -
  have "map set_sorted_downstream tasks = tasks"
    if "list_all (\<lambda>task. case downstream_task_ids task of None \<Rightarrow> False | Some ds \<Rightarrow> sorted ds)
          tasks"
  proof (rule map_idI)
    fix task
    assume "task \<in> set tasks"
    with that obtain ds where "downstream_task_ids task = Some ds" and "sorted ds"
      by (auto simp: list_all_iff split: option.splits)
    then show "set_sorted_downstream task = task"
      by (simp add: set_sorted_downstream_def get_downstream_task_ids_def
          sort_key_id_if_sorted)
  qed
  then show ?thesis
    by (simp add: normalize_tasks_def Let_def set_sorted_downstream_def)
qed

theorem normalize_tasks_frame_witness:
  "list_all (\<lambda>task. case downstream_task_ids task of None \<Rightarrow> False | Some ds \<Rightarrow> sorted ds)
     [\<lparr>task_id = Some ''b'', downstream_task_ids = Some [''c'', ''d'']\<rparr>,
      \<lparr>task_id = Some ''a'', downstream_task_ids = Some []\<rparr>] \<and>
   fst (normalize_tasks
     [\<lparr>task_id = Some ''b'', downstream_task_ids = Some [''c'', ''d'']\<rparr>,
      \<lparr>task_id = Some ''a'', downstream_task_ids = Some []\<rparr>]) =
     [\<lparr>task_id = Some ''b'', downstream_task_ids = Some [''c'', ''d'']\<rparr>,
      \<lparr>task_id = Some ''a'', downstream_task_ids = Some []\<rparr>]"
  using normalize_tasks_frame
    [of "[\<lparr>task_id = Some ''b'', downstream_task_ids = Some [''c'', ''d'']\<rparr>,
          \<lparr>task_id = Some ''a'', downstream_task_ids = Some []\<rparr>]"]
  by simp

subsection \<open>Permutations of the input\<close>

lemma filter_key_distinct:
  "distinct (map f zs) \<Longrightarrow> k \<in> set zs \<Longrightarrow> filter (\<lambda>x. f k = f x) zs = [k]"
proof (induction zs)
  case Nil
  then show ?case by simp
next
  case (Cons z zs)
  show ?case
  proof (cases "k = z")
    case True
    with Cons.prems have "filter (\<lambda>x. f k = f x) zs = []"
      by (auto simp: filter_empty_conv)
    with True show ?thesis by simp
  next
    case False
    with Cons.prems have kin: "k \<in> set zs"
      by simp
    from Cons.prems have "f z \<notin> f ` set zs"
      by simp
    with kin have "f k \<noteq> f z"
      by (metis imageI)
    with kin Cons show ?thesis by simp
  qed
qed

lemma sort_key_distinct_keys:
  assumes "mset xs = mset ys" and "distinct (map f xs)"
  shows "sort_key f ys = sort_key f xs"
proof (rule properties_for_sort_key [symmetric])
  show "mset (sort_key f ys) = mset xs"
    using assms(1) by simp
  show "sorted (map f (sort_key f ys))"
    by simp
  fix k
  assume k: "k \<in> set (sort_key f ys)"
  have "mset (map f (sort_key f ys)) = mset (map f xs)"
    using assms(1) by simp
  then have d: "distinct (map f (sort_key f ys))"
    using assms(2) by (metis mset_eq_imp_distinct_iff)
  have "k \<in> set xs"
    using k assms(1) by (metis mset_eq_setD set_sort)
  then show "filter (\<lambda>x. f k = f x) (sort_key f ys) = filter (\<lambda>x. f k = f x) xs"
    by (simp add: filter_key_distinct [OF d k] filter_key_distinct [OF assms(2)])
qed

lemma well_formed_mset: "mset xs = mset ys \<Longrightarrow> well_formed xs = well_formed ys"
  by (auto simp: well_formed_def list_all_iff dest: mset_eq_setD)

text \<open>
  C6, as stated, fails: the sort is stable and compares identifiers only, so two tasks
  with the same identifier and different downstream lists stay in the order of the
  input.
\<close>

theorem normalize_tasks_permutation_counterexample:
  "mset [\<lparr>task_id = Some ''a'', downstream_task_ids = Some [''y'']\<rparr>,
         \<lparr>task_id = Some ''a'', downstream_task_ids = Some [''x'']\<rparr>] =
   mset [\<lparr>task_id = Some ''a'', downstream_task_ids = Some [''x'']\<rparr>,
         \<lparr>task_id = Some ''a'', downstream_task_ids = Some [''y'']\<rparr>] \<and>
   normalize_tasks_result
     [\<lparr>task_id = Some ''a'', downstream_task_ids = Some [''y'']\<rparr>,
      \<lparr>task_id = Some ''a'', downstream_task_ids = Some [''x'']\<rparr>] \<noteq>
   normalize_tasks_result
     [\<lparr>task_id = Some ''a'', downstream_task_ids = Some [''x'']\<rparr>,
      \<lparr>task_id = Some ''a'', downstream_task_ids = Some [''y'']\<rparr>]"
  by (simp add: normalize_tasks_result_def normalize_tasks_def sorted_by_task_id_def
      set_sorted_downstream_def get_downstream_task_ids_def Let_def)

text \<open>
  C6, amended: for every task collection T whose task identifiers are pairwise distinct
  and every permutation P of T, normalizing P and normalizing T give the same result.
\<close>

theorem normalize_tasks_permutation:
  assumes perm: "mset P = mset T" and ids: "distinct (map task_id T)"
  shows "normalize_tasks_result P = normalize_tasks_result T"
proof (cases "well_formed T")
  case True
  then have wfP: "well_formed P"
    using well_formed_mset [OF perm] by simp
  have some: "\<forall>t \<in> set T. task_id t \<noteq> None"
    using True by (simp add: well_formed_def list_all_iff)
  have keys: "map (\<lambda>x. the (task_id x)) (map set_sorted_downstream T) =
              map (\<lambda>t. the (task_id t)) T"
    by (simp add: task_id_set_sorted_downstream)
  have "distinct (map (\<lambda>t. the (task_id t)) T)"
  proof -
    have "inj_on (\<lambda>t. the (task_id t)) (set T)"
    proof (rule inj_onI)
      fix x y
      assume "x \<in> set T" "y \<in> set T" "the (task_id x) = the (task_id y)"
      with some have "task_id x = task_id y"
        by (metis option.collapse)
      with ids \<open>x \<in> set T\<close> \<open>y \<in> set T\<close> show "x = y"
        by (simp add: distinct_map inj_on_def)
    qed
    with ids show ?thesis
      by (simp add: distinct_map)
  qed
  then have d: "distinct (map (\<lambda>x. the (task_id x)) (map set_sorted_downstream T))"
    by (simp only: keys)
  have m: "mset (map set_sorted_downstream T) = mset (map set_sorted_downstream P)"
    using perm by simp
  show ?thesis
    by (simp add: normalize_tasks_result_well_formed [OF True]
        normalize_tasks_result_well_formed [OF wfP] sort_key_distinct_keys [OF m d])
next
  case False
  then have "\<not> well_formed P"
    using well_formed_mset [OF perm] by simp
  with False show ?thesis
    by (simp add: normalize_tasks_result_ill_formed)
qed

theorem normalize_tasks_permutation_witness:
  "normalize_tasks_result
     [\<lparr>task_id = Some ''b'', downstream_task_ids = Some [''y'']\<rparr>,
      \<lparr>task_id = Some ''a'', downstream_task_ids = None\<rparr>] =
   normalize_tasks_result
     [\<lparr>task_id = Some ''a'', downstream_task_ids = None\<rparr>,
      \<lparr>task_id = Some ''b'', downstream_task_ids = Some [''y'']\<rparr>]"
  using normalize_tasks_permutation
    [of "[\<lparr>task_id = Some ''b'', downstream_task_ids = Some [''y'']\<rparr>,
          \<lparr>task_id = Some ''a'', downstream_task_ids = None\<rparr>]"
        "[\<lparr>task_id = Some ''a'', downstream_task_ids = None\<rparr>,
          \<lparr>task_id = Some ''b'', downstream_task_ids = Some [''y'']\<rparr>]"]
  by simp

subsection \<open>Normalizing twice\<close>

lemma set_sorted_downstream_sorted:
  "downstream_task_ids t = Some ds \<Longrightarrow> sorted ds \<Longrightarrow> set_sorted_downstream t = t"
  by (simp add: set_sorted_downstream_def get_downstream_task_ids_def sort_key_id_if_sorted)

lemma normalized_fixed:
  assumes "normalized_task_sequence tasks"
  shows "map set_sorted_downstream tasks = tasks"
proof -
  have "set_sorted_downstream t = t" if "t \<in> set tasks" for t
    using assms that
    by (auto simp: normalized_task_sequence_def list_all_iff set_sorted_downstream_sorted
        split: option.splits)
  then show ?thesis
    by (simp add: map_idI)
qed

lemma normalized_well_formed: "normalized_task_sequence tasks \<Longrightarrow> well_formed tasks"
  by (simp add: normalized_task_sequence_def well_formed_def list_all_iff)

lemma normalize_tasks_result_normalized:
  assumes "normalized_task_sequence tasks"
  shows "normalize_tasks_result tasks = Inr tasks"
proof -
  have "sorted (map (\<lambda>x. the (task_id x)) tasks)"
    using assms by (simp add: normalized_task_sequence_def)
  then have "sort_key (\<lambda>x. the (task_id x)) tasks = tasks"
    by (rule sort_key_id_if_sorted)
  then show ?thesis
    by (simp add: normalize_tasks_result_well_formed [OF normalized_well_formed [OF assms]]
        normalized_fixed [OF assms])
qed

text \<open>
  C7: normalizing what the normalizer returned returns it again; where the first call
  raises, so does the composition, with the same exception.
\<close>

theorem normalize_tasks_idempotent:
  "(case normalize_tasks_result tasks of
      Inl e \<Rightarrow> Inl e
    | Inr result \<Rightarrow> normalize_tasks_result result) = normalize_tasks_result tasks"
proof (cases "well_formed tasks")
  case True
  show ?thesis
    by (simp add: normalize_tasks_result_well_formed [OF True]
        normalize_tasks_result_normalized [OF normalized_sort_key [OF True]])
next
  case False
  then show ?thesis
    by (simp add: normalize_tasks_result_ill_formed)
qed

theorem normalize_tasks_idempotent_witness:
  "normalize_tasks_result
     [\<lparr>task_id = Some ''a'', downstream_task_ids = Some []\<rparr>,
      \<lparr>task_id = Some ''b'', downstream_task_ids = Some [''c'', ''d'']\<rparr>] =
   normalize_tasks_result
     [\<lparr>task_id = Some ''b'', downstream_task_ids = Some [''d'', ''c'']\<rparr>,
      \<lparr>task_id = Some ''a'', downstream_task_ids = None\<rparr>]"
proof -
  have run: "normalize_tasks_result
     [\<lparr>task_id = Some ''b'', downstream_task_ids = Some [''d'', ''c'']\<rparr>,
      \<lparr>task_id = Some ''a'', downstream_task_ids = None\<rparr>] =
    Inr [\<lparr>task_id = Some ''a'', downstream_task_ids = Some []\<rparr>,
         \<lparr>task_id = Some ''b'', downstream_task_ids = Some [''c'', ''d'']\<rparr>]"
    by (simp add: normalize_tasks_result_def normalize_tasks_def sorted_by_task_id_def
        set_sorted_downstream_def get_downstream_task_ids_def Let_def)
  from normalize_tasks_idempotent
    [of "[\<lparr>task_id = Some ''b'', downstream_task_ids = Some [''d'', ''c'']\<rparr>,
          \<lparr>task_id = Some ''a'', downstream_task_ids = None\<rparr>]"]
  show ?thesis
    by (simp add: run)
qed

section \<open>The renderer\<close>

subsection \<open>Task sequences with pairwise distinct identifiers\<close>

lemma update_fresh: "k \<notin> fst ` set al \<Longrightarrow> AList.update k v al = al @ [(k, v)]"
  by (induction al) auto

lemma join_concat:
  "ds \<noteq> [] \<Longrightarrow> sep @ join sep ds = concat (map (\<lambda>d. sep @ d) ds)"
  by (induction sep ds rule: join.induct) simp_all

lemma graph_line_rendered_line:
  "sorted ds \<Longrightarrow> graph_line (tid, ds) = rendered_line tid ds"
  using join_concat [of ds "'' >> ''"]
  by (simp add: graph_line_def rendered_line_def sort_key_id_if_sorted)

lemma build_graph_distinct:
  assumes "well_formed tasks" and "distinct (map task_id tasks)"
    and "\<forall>task \<in> set tasks. the (task_id task) \<notin> fst ` set graph"
  shows "build_graph graph tasks =
           Inr (graph @ map (\<lambda>task. (the (task_id task), get_downstream_task_ids task)) tasks)"
  using assms
proof (induction tasks arbitrary: graph)
  case Nil
  show ?case by simp
next
  case (Cons task tasks)
  from Cons.prems(1) obtain tid where tid: "task_id task = Some tid"
    by (auto simp: well_formed_def)
  from Cons.prems(1) have wf: "well_formed tasks"
    by (simp add: well_formed_def)
  from Cons.prems(2) have d: "distinct (map task_id tasks)"
    by simp
  from Cons.prems(3) tid have fresh: "tid \<notin> fst ` set graph"
    by simp
  let ?graph = "AList.update tid (get_downstream_task_ids task) graph"
  have "\<forall>t \<in> set tasks. the (task_id t) \<notin> fst ` set ?graph"
  proof
    fix t
    assume t: "t \<in> set tasks"
    with wf obtain tid' where tid': "task_id t = Some tid'"
      by (auto simp: well_formed_def list_all_iff)
    with Cons.prems(2) tid t have "tid' \<noteq> tid"
      by force
    moreover from Cons.prems(3) t tid' have "tid' \<notin> fst ` set graph"
      by force
    ultimately show "the (task_id t) \<notin> fst ` set ?graph"
      by (simp add: tid' dom_update)
  qed
  from Cons.IH [OF wf d this] show ?case
    by (simp add: tid update_fresh [OF fresh])
qed

lemma create_dependency_graph_distinct:
  assumes "normalized_task_sequence tasks" and "distinct (map task_id tasks)"
  shows "create_dependency_graph tasks =
    Inr (map (\<lambda>task. rendered_line (the (task_id task)) (get_downstream_task_ids task)) tasks)"
proof -
  have wf: "well_formed tasks"
    using assms(1) by (simp add: normalized_task_sequence_def well_formed_def list_all_iff)
  have "sorted (get_downstream_task_ids task)" if "task \<in> set tasks" for task
    using assms(1) that
    by (auto simp: normalized_task_sequence_def list_all_iff get_downstream_task_ids_def
        split: option.splits)
  then show ?thesis
    by (simp add: create_dependency_graph_def build_graph_distinct [OF wf assms(2)]
        graph_line_rendered_line)
qed

text \<open>
  C3, as stated, fails: a Normalized Task Sequence can hold two tasks with one identifier
  (the normalizer returns them both), and the renderer then produces one string for the
  two of them.
\<close>

theorem create_dependency_graph_lines_counterexample:
  "normalize_tasks_result
     [\<lparr>task_id = Some ''a'', downstream_task_ids = Some []\<rparr>,
      \<lparr>task_id = Some ''a'', downstream_task_ids = Some []\<rparr>] =
   Inr [\<lparr>task_id = Some ''a'', downstream_task_ids = Some []\<rparr>,
        \<lparr>task_id = Some ''a'', downstream_task_ids = Some []\<rparr>] \<and>
   normalized_task_sequence
     [\<lparr>task_id = Some ''a'', downstream_task_ids = Some []\<rparr>,
      \<lparr>task_id = Some ''a'', downstream_task_ids = Some []\<rparr>] \<and>
   create_dependency_graph
     [\<lparr>task_id = Some ''a'', downstream_task_ids = Some []\<rparr>,
      \<lparr>task_id = Some ''a'', downstream_task_ids = Some []\<rparr>] =
   Inr [''a (no downstream tasks)'']"
  by (simp add: normalize_tasks_result_def normalize_tasks_def
        sorted_by_task_id_def set_sorted_downstream_def get_downstream_task_ids_def Let_def
        create_dependency_graph_def graph_line_def normalized_task_sequence_def)

text \<open>
  C3, amended: for every Normalized Task Sequence whose task identifiers are pairwise
  distinct, the renderer produces one string per task, in the order of the sequence: the
  identifier followed by the downstream identifiers in sorted order, each behind the
  separator \<open>'' >> ''\<close>, or the identifier followed by \<open>'' (no downstream tasks)''\<close> when
  the task has no downstream identifier. The two examples of the specification hold as
  written.
\<close>

theorem create_dependency_graph_lines:
  "(normalized_task_sequence tasks \<and> distinct (map task_id tasks) \<longrightarrow>
      create_dependency_graph tasks =
        Inr (map (\<lambda>task. rendered_line (the (task_id task)) (get_downstream_task_ids task))
               tasks)) \<and>
   render_normalized [\<lparr>task_id = Some ''a'', downstream_task_ids = Some [''c'', ''b'']\<rparr>] =
     Inr [''a >> b >> c''] \<and>
   render_normalized [\<lparr>task_id = Some ''a'', downstream_task_ids = Some []\<rparr>] =
     Inr [''a (no downstream tasks)'']"
proof -
  have "render_normalized [\<lparr>task_id = Some ''a'', downstream_task_ids = Some [''c'', ''b'']\<rparr>] =
     Inr [''a >> b >> c'']"
    by (simp add: render_normalized_def normalize_tasks_result_def normalize_tasks_def
        sorted_by_task_id_def set_sorted_downstream_def get_downstream_task_ids_def Let_def
        create_dependency_graph_def graph_line_def)
  moreover have "render_normalized [\<lparr>task_id = Some ''a'', downstream_task_ids = Some []\<rparr>] =
     Inr [''a (no downstream tasks)'']"
    by (simp add: render_normalized_def normalize_tasks_result_def normalize_tasks_def
        sorted_by_task_id_def set_sorted_downstream_def get_downstream_task_ids_def Let_def
        create_dependency_graph_def graph_line_def)
  ultimately show ?thesis
    by (simp add: create_dependency_graph_distinct)
qed

theorem create_dependency_graph_lines_witness:
  "normalized_task_sequence
     [\<lparr>task_id = Some ''a'', downstream_task_ids = Some [''b'', ''c'']\<rparr>,
      \<lparr>task_id = Some ''b'', downstream_task_ids = Some []\<rparr>] \<and>
   distinct (map task_id
     [\<lparr>task_id = Some ''a'', downstream_task_ids = Some [''b'', ''c'']\<rparr>,
      \<lparr>task_id = Some ''b'', downstream_task_ids = Some []\<rparr>]) \<and>
   create_dependency_graph
     [\<lparr>task_id = Some ''a'', downstream_task_ids = Some [''b'', ''c'']\<rparr>,
      \<lparr>task_id = Some ''b'', downstream_task_ids = Some []\<rparr>] =
     Inr [''a >> b >> c'', ''b (no downstream tasks)'']"
proof -
  let ?tasks = "[\<lparr>task_id = Some ''a'', downstream_task_ids = Some [''b'', ''c'']\<rparr>,
      \<lparr>task_id = Some ''b'', downstream_task_ids = Some []\<rparr>]"
  have n: "normalized_task_sequence ?tasks"
    by (simp add: normalized_task_sequence_def)
  have d: "distinct (map task_id ?tasks)"
    by simp
  from create_dependency_graph_lines [of ?tasks] n d
  have "create_dependency_graph ?tasks =
        Inr (map (\<lambda>task. rendered_line (the (task_id task)) (get_downstream_task_ids task))
               ?tasks)"
    by blast
  then have "create_dependency_graph ?tasks = Inr [''a >> b >> c'', ''b (no downstream tasks)'']"
    by (simp add: rendered_line_def get_downstream_task_ids_def)
  with n d show ?thesis
    by blast
qed

text \<open>
  C8: rendering the empty task sequence returns the empty sequence of strings, as a
  value: no exception is raised.
\<close>

theorem create_dependency_graph_empty: "create_dependency_graph [] = Inr []"
  by (simp add: create_dependency_graph_def)

subsection \<open>Task sequences with repeated identifiers\<close>

lemma build_graph_general:
  assumes "well_formed tasks" and "distinct (map fst graph)"
  shows "\<exists>g. build_graph graph tasks = Inr g \<and> distinct (map fst g) \<and>
           fst ` set g = fst ` set graph \<union> {tid. Some tid \<in> task_id ` set tasks} \<and>
           (\<forall>tid. map_of g tid =
              (if Some tid \<in> task_id ` set tasks
               then Some (get_downstream_task_ids
                            (last (filter (\<lambda>task. task_id task = Some tid) tasks)))
               else map_of graph tid))"
  using assms
proof (induction tasks arbitrary: graph)
  case Nil
  then show ?case by simp
next
  case (Cons task tasks)
  from Cons.prems(1) obtain k where k: "task_id task = Some k"
    by (auto simp: well_formed_def)
  from Cons.prems(1) have wf: "well_formed tasks"
    by (simp add: well_formed_def)
  let ?graph = "AList.update k (get_downstream_task_ids task) graph"
  have d: "distinct (map fst ?graph)"
    using Cons.prems(2) by (rule distinct_update)
  from Cons.IH [OF wf d] obtain g where g: "build_graph ?graph tasks = Inr g"
    and dg: "distinct (map fst g)"
    and keys: "fst ` set g = fst ` set ?graph \<union> {tid. Some tid \<in> task_id ` set tasks}"
    and vals: "\<And>tid. map_of g tid =
              (if Some tid \<in> task_id ` set tasks
               then Some (get_downstream_task_ids
                            (last (filter (\<lambda>task. task_id task = Some tid) tasks)))
               else map_of ?graph tid)"
    by blast
  have "build_graph graph (task # tasks) = Inr g"
    by (simp add: k g)
  moreover have "fst ` set g = fst ` set graph \<union> {tid. Some tid \<in> task_id ` set (task # tasks)}"
    using keys k by (auto simp: dom_update)
  moreover have "map_of g tid =
              (if Some tid \<in> task_id ` set (task # tasks)
               then Some (get_downstream_task_ids
                            (last (filter (\<lambda>task. task_id task = Some tid) (task # tasks))))
               else map_of graph tid)" for tid
  proof (cases "Some tid \<in> task_id ` set tasks")
    case True
    then have "filter (\<lambda>task. task_id task = Some tid) tasks \<noteq> []"
      by (auto simp: filter_empty_conv)
    with True show ?thesis
      by (simp add: vals)
  next
    case False
    then have "filter (\<lambda>task. task_id task = Some tid) tasks = []"
      by (auto simp: filter_empty_conv image_iff)
    with False show ?thesis
      by (auto simp: vals k update_conv')
  qed
  ultimately show ?case
    using dg by blast
qed

lemma card_ids:
  assumes "well_formed tasks" and "\<not> distinct (map task_id tasks)"
  shows "card {tid. Some tid \<in> task_id ` set tasks} < length tasks"
proof -
  have "{tid. Some tid \<in> task_id ` set tasks} = the ` set (map task_id tasks)"
    using assms(1) by (force simp: well_formed_def list_all_iff image_iff)
  then have "card {tid. Some tid \<in> task_id ` set tasks} \<le> card (set (map task_id tasks))"
    by (simp add: card_image_le)
  moreover have "card (set (map task_id tasks)) < length (map task_id tasks)"
    using assms(2) by (metis card_distinct card_length le_neq_implies_less)
  ultimately show ?thesis
    by simp
qed

text \<open>
  C10: for every list of tasks with identifiers, the renderer returns one line per
  distinct identifier: the lines of a dictionary that has each identifier of the list as
  a key once, with the downstream list of the last task of the list that has this
  identifier. So a list in which an identifier repeats gets fewer lines than it has
  tasks. The result is a value: no exception is raised, and the function writes nothing.
\<close>

theorem create_dependency_graph_duplicate_ids:
  assumes "well_formed tasks"
  shows "\<exists>graph. create_dependency_graph tasks = Inr (map graph_line graph) \<and>
      distinct (map fst graph) \<and>
      fst ` set graph = {tid. Some tid \<in> task_id ` set tasks} \<and>
      (\<forall>(tid, downstream_tasks) \<in> set graph.
         downstream_tasks =
           get_downstream_task_ids (last (filter (\<lambda>task. task_id task = Some tid) tasks))) \<and>
      (\<not> distinct (map task_id tasks) \<longrightarrow> length graph < length tasks)"
proof -
  from build_graph_general [OF assms, of "[]"] obtain g
    where g: "build_graph [] tasks = Inr g"
    and dg: "distinct (map fst g)"
    and keys: "fst ` set g = {tid. Some tid \<in> task_id ` set tasks}"
    and vals: "\<And>tid. map_of g tid =
              (if Some tid \<in> task_id ` set tasks
               then Some (get_downstream_task_ids
                            (last (filter (\<lambda>task. task_id task = Some tid) tasks)))
               else None)"
    by auto
  have "ds = get_downstream_task_ids (last (filter (\<lambda>task. task_id task = Some tid) tasks))"
    if "(tid, ds) \<in> set g" for tid ds
  proof -
    from that dg have "map_of g tid = Some ds"
      by simp
    moreover from that keys have "Some tid \<in> task_id ` set tasks"
      by force
    ultimately show ?thesis
      by (simp add: vals)
  qed
  moreover have "length g < length tasks" if "\<not> distinct (map task_id tasks)"
  proof -
    have "length g = card (fst ` set g)"
      using dg by (metis distinct_card length_map set_map)
    with card_ids [OF assms that] keys show ?thesis
      by simp
  qed
  ultimately show ?thesis
    using g dg keys by (auto simp: create_dependency_graph_def)
qed

theorem create_dependency_graph_duplicate_ids_witness:
  "well_formed
     [\<lparr>task_id = Some ''a'', downstream_task_ids = Some [''x'']\<rparr>,
      \<lparr>task_id = Some ''b'', downstream_task_ids = None\<rparr>,
      \<lparr>task_id = Some ''a'', downstream_task_ids = Some [''y'', ''z'']\<rparr>] \<and>
   create_dependency_graph
     [\<lparr>task_id = Some ''a'', downstream_task_ids = Some [''x'']\<rparr>,
      \<lparr>task_id = Some ''b'', downstream_task_ids = None\<rparr>,
      \<lparr>task_id = Some ''a'', downstream_task_ids = Some [''y'', ''z'']\<rparr>] =
     Inr [''a >> y >> z'', ''b (no downstream tasks)'']"
proof -
  let ?tasks = "[\<lparr>task_id = Some ''a'', downstream_task_ids = Some [''x'']\<rparr>,
      \<lparr>task_id = Some ''b'', downstream_task_ids = None\<rparr>,
      \<lparr>task_id = Some ''a'', downstream_task_ids = Some [''y'', ''z'']\<rparr>]"
  have wf: "well_formed ?tasks"
    by (simp add: well_formed_def)
  have run: "create_dependency_graph ?tasks = Inr [''a >> y >> z'', ''b (no downstream tasks)'']"
    by (simp add: create_dependency_graph_def graph_line_def get_downstream_task_ids_def)
  from create_dependency_graph_duplicate_ids [OF wf] wf run show ?thesis
    by blast
qed

section \<open>The differ\<close>

lemma fold_unique_to_env1:
  "fold (\<lambda>dag r. r\<lparr>unique_to_env1 := unique_to_env1 r @ [dag]\<rparr>) dags report =
     report\<lparr>unique_to_env1 := unique_to_env1 report @ dags\<rparr>"
  by (induction dags arbitrary: report) simp_all

lemma fold_unique_to_env2:
  "fold (\<lambda>dag r. r\<lparr>unique_to_env2 := unique_to_env2 r @ [dag]\<rparr>) dags report =
     report\<lparr>unique_to_env2 := unique_to_env2 report @ dags\<rparr>"
  by (induction dags arbitrary: report) simp_all

lemma compare_common_present:
  "\<forall>dag \<in> set dags. dag |\<in>| fmdom graphs1 \<and> dag |\<in>| fmdom graphs2 \<Longrightarrow>
   compare_common graphs1 graphs2 dags report =
     Inr (report\<lparr>different_graphs := different_graphs report @
            filter (\<lambda>dag. fmlookup graphs1 dag \<noteq> fmlookup graphs2 dag) dags\<rparr>)"
proof (induction dags arbitrary: report)
  case Nil
  show ?case by simp
next
  case (Cons dag dags)
  from Cons.prems obtain g1 g2
    where g: "fmlookup graphs1 dag = Some g1" "fmlookup graphs2 dag = Some g2"
    by (auto simp: fmdom.rep_eq dom_def fmlookup_dom_iff)
  from Cons.prems have rest: "\<forall>dag \<in> set dags. dag |\<in>| fmdom graphs1 \<and> dag |\<in>| fmdom graphs2"
    by simp
  show ?case
    by (simp add: g Cons.IH [OF rest])
qed

lemma set_iteration_set: "set_iteration iter \<Longrightarrow> set (iter S) = fset S"
  by (metis set_iteration_def fset_of_list.rep_eq)

lemma compare_dag_graphs_report:
  assumes "set_iteration iter"
  shows "compare_dag_graphs iter graphs1 graphs2 =
    Inr \<lparr>unique_to_env1 = iter (fmdom graphs1 |-| fmdom graphs2),
         unique_to_env2 = iter (fmdom graphs2 |-| fmdom graphs1),
         different_graphs =
           filter (\<lambda>dag. fmlookup graphs1 dag \<noteq> fmlookup graphs2 dag)
             (iter (fmdom graphs1 |\<inter>| fmdom graphs2))\<rparr>"
proof -
  have "\<forall>dag \<in> set (iter (fmdom graphs1 |\<inter>| fmdom graphs2)).
          dag |\<in>| fmdom graphs1 \<and> dag |\<in>| fmdom graphs2"
    by (simp add: set_iteration_set [OF assms])
  then show ?thesis
    by (simp add: compare_dag_graphs_def Let_def fold_unique_to_env1 fold_unique_to_env2
        compare_common_present)
qed

lemma set_iteration_sorted: "set_iteration sorted_list_of_fset"
proof -
  have "distinct (sorted_list_of_fset S)" for S :: "'a fset"
    by (simp add: sorted_list_of_fset.rep_eq)
  then show ?thesis
    by (simp add: set_iteration_def)
qed

text \<open>
  C1: whatever the order in which the sets are iterated, the differ returns a report
  whose first list holds exactly the keys of the left collection that are not keys of the
  right one, whose second list holds exactly the keys of the right collection that are not
  keys of the left one, and whose third list holds exactly the keys of both collections
  with different rendered graphs (lists of strings, compared element by element); a key
  of both with equal rendered graphs is in none of the three.
\<close>

theorem compare_dag_graphs_classifies:
  assumes "set_iteration iter"
  shows "\<exists>report. compare_dag_graphs iter left right = Inr report \<and>
    set (unique_to_env1 report) = {dag. dag |\<in>| fmdom left \<and> dag |\<notin>| fmdom right} \<and>
    set (unique_to_env2 report) = {dag. dag |\<in>| fmdom right \<and> dag |\<notin>| fmdom left} \<and>
    set (different_graphs report) =
      {dag. dag |\<in>| fmdom left \<and> dag |\<in>| fmdom right \<and> fmlookup left dag \<noteq> fmlookup right dag} \<and>
    (\<forall>dag. dag |\<in>| fmdom left \<and> dag |\<in>| fmdom right \<and> fmlookup left dag = fmlookup right dag \<longrightarrow>
       dag \<notin> set (unique_to_env1 report) \<and> dag \<notin> set (unique_to_env2 report) \<and>
       dag \<notin> set (different_graphs report))"
  by (auto simp: compare_dag_graphs_report [OF assms] set_iteration_set [OF assms])

definition L0 :: graphs where "L0 = fmupd ''w1'' [''a >> b''] (fmupd ''w2'' [''x (no downstream tasks)''] (fmupd ''w4'' [''a >> b'', ''b (no downstream tasks)''] fmempty))"
definition R0 :: graphs where "R0 = fmupd ''w1'' [''a >> b''] (fmupd ''w3'' [''y (no downstream tasks)''] (fmupd ''w4'' [''a (no downstream tasks)'', ''b (no downstream tasks)''] fmempty))"

theorem compare_dag_graphs_classifies_witness:
  "set_iteration (sorted_list_of_fset :: string fset \<Rightarrow> string list) \<and>
   (\<exists>report.
      compare_dag_graphs sorted_list_of_fset
        (fmupd ''w1'' [''a >> b'']
          (fmupd ''w2'' [''x (no downstream tasks)'']
            (fmupd ''w4'' [''a >> b'', ''b (no downstream tasks)''] fmempty)))
        (fmupd ''w1'' [''a >> b'']
          (fmupd ''w3'' [''y (no downstream tasks)'']
            (fmupd ''w4'' [''a (no downstream tasks)'', ''b (no downstream tasks)''] fmempty)))
        = Inr report \<and>
      set (unique_to_env1 report) = {''w2''} \<and>
      set (unique_to_env2 report) = {''w3''} \<and>
      set (different_graphs report) = {''w4''})"
proof -
  let ?left = "fmupd ''w1'' [''a >> b'']
          (fmupd ''w2'' [''x (no downstream tasks)'']
            (fmupd ''w4'' [''a >> b'', ''b (no downstream tasks)''] fmempty))"
  let ?right = "fmupd ''w1'' [''a >> b'']
          (fmupd ''w3'' [''y (no downstream tasks)'']
            (fmupd ''w4'' [''a (no downstream tasks)'', ''b (no downstream tasks)''] fmempty))"
  have u1: "{dag. dag |\<in>| fmdom ?left \<and> dag |\<notin>| fmdom ?right} = {''w2''}"
    by auto
  have u2: "{dag. dag |\<in>| fmdom ?right \<and> dag |\<notin>| fmdom ?left} = {''w3''}"
    by auto
  have df: "{dag. dag |\<in>| fmdom ?left \<and> dag |\<in>| fmdom ?right \<and>
                 fmlookup ?left dag \<noteq> fmlookup ?right dag} = {''w4''}"
    by auto
  have "\<exists>report. compare_dag_graphs sorted_list_of_fset ?left ?right = Inr report \<and>
      set (unique_to_env1 report) = {''w2''} \<and>
      set (unique_to_env2 report) = {''w3''} \<and>
      set (different_graphs report) = {''w4''} \<and>
      (\<forall>dag. dag |\<in>| fmdom ?left \<and> dag |\<in>| fmdom ?right \<and>
          fmlookup ?left dag = fmlookup ?right dag \<longrightarrow>
        dag \<notin> set (unique_to_env1 report) \<and> dag \<notin> set (unique_to_env2 report) \<and>
        dag \<notin> set (different_graphs report))"
    using compare_dag_graphs_classifies [OF set_iteration_sorted, of ?left ?right]
    by (simp only: u1 u2 df)
  then have "\<exists>report. compare_dag_graphs sorted_list_of_fset ?left ?right = Inr report \<and>
      set (unique_to_env1 report) = {''w2''} \<and>
      set (unique_to_env2 report) = {''w3''} \<and>
      set (different_graphs report) = {''w4''}"
    by (elim exE conjE) (intro exI conjI; assumption)
  with set_iteration_sorted show ?thesis
    by (rule conjI)
qed

text \<open>
  C4: whatever the order in which the sets are iterated, no list of the report repeats
  an identifier, no identifier is in two of the lists, and every key of either collection
  is in exactly one of the four categories: the three lists and the implicit match.
\<close>

theorem compare_dag_graphs_partition:
  assumes "set_iteration iter"
  shows "\<exists>report. compare_dag_graphs iter left right = Inr report \<and>
     distinct (unique_to_env1 report) \<and> distinct (unique_to_env2 report) \<and>
     distinct (different_graphs report) \<and>
     set (unique_to_env1 report) \<inter> set (unique_to_env2 report) = {} \<and>
     set (unique_to_env1 report) \<inter> set (different_graphs report) = {} \<and>
     set (unique_to_env2 report) \<inter> set (different_graphs report) = {} \<and>
     (\<forall>dag. dag |\<in>| fmdom left |\<union>| fmdom right \<longrightarrow>
        length (filter (\<lambda>holds. holds)
          [dag \<in> set (unique_to_env1 report), dag \<in> set (unique_to_env2 report),
           dag \<in> set (different_graphs report), implicit_match left right dag]) = 1)"
proof -
  have d: "distinct (iter S)" for S
    using assms by (simp add: set_iteration_def)
  show ?thesis
    by (auto simp: compare_dag_graphs_report [OF assms] set_iteration_set [OF assms] d
        implicit_match_def)
qed

theorem compare_dag_graphs_partition_witness:
  "set_iteration (sorted_list_of_fset :: string fset \<Rightarrow> string list) \<and>
   (\<exists>report.
      compare_dag_graphs sorted_list_of_fset
        (fmupd ''w1'' [''a (no downstream tasks)''] (fmupd ''w2'' [''x >> y''] fmempty))
        (fmupd ''w1'' [''a (no downstream tasks)''] (fmupd ''w3'' [''x >> y''] fmempty))
        = Inr report \<and>
      distinct (unique_to_env1 report) \<and> distinct (unique_to_env2 report) \<and>
      distinct (different_graphs report) \<and>
      set (unique_to_env1 report) \<inter> set (unique_to_env2 report) = {} \<and>
      ''w1'' \<notin> set (unique_to_env1 report) \<and> ''w1'' \<notin> set (unique_to_env2 report) \<and>
      ''w1'' \<notin> set (different_graphs report))"
proof -
  let ?left = "fmupd ''w1'' [''a (no downstream tasks)''] (fmupd ''w2'' [''x >> y''] fmempty)"
  let ?right = "fmupd ''w1'' [''a (no downstream tasks)''] (fmupd ''w3'' [''x >> y''] fmempty)"
  from compare_dag_graphs_partition [OF set_iteration_sorted, of ?left ?right]
  obtain report where r: "compare_dag_graphs sorted_list_of_fset ?left ?right = Inr report"
    and d: "distinct (unique_to_env1 report)" "distinct (unique_to_env2 report)"
      "distinct (different_graphs report)"
    and disj: "set (unique_to_env1 report) \<inter> set (unique_to_env2 report) = {}"
    and one: "\<And>dag. dag |\<in>| fmdom ?left |\<union>| fmdom ?right \<Longrightarrow>
        length (filter (\<lambda>holds. holds)
          [dag \<in> set (unique_to_env1 report), dag \<in> set (unique_to_env2 report),
           dag \<in> set (different_graphs report), implicit_match ?left ?right dag]) = 1"
    by blast
  have "implicit_match ?left ?right ''w1''"
    by (simp add: implicit_match_def)
  with one [of "''w1''"] have "''w1'' \<notin> set (unique_to_env1 report) \<and>
      ''w1'' \<notin> set (unique_to_env2 report) \<and> ''w1'' \<notin> set (different_graphs report)"
    by (auto split: if_splits)
  with r d disj set_iteration_sorted show ?thesis
    by blast
qed

section \<open>The differ with its output\<close>





section \<open>Exceptions on well-formed input\<close>




end
